theory Spec2Isabelle
  imports Main "HOL-Library.Sublist"
begin

section \<open>Go primitives used by main.go\<close>

text \<open>
  A Go \<open>string\<close> is a sequence of bytes; it is modelled as \<open>string\<close> (a list of
  \<open>char\<close>). Go's \<open>int\<close> is modelled as \<open>int\<close>: every integer of the program is a
  position inside a string or a loop counter bounded by the parameter \<open>n\<close>, so no
  arithmetic of the program can leave the 64-bit range.

  A slice expression whose bounds are out of range panics at run time. The panic is a
  value of the model.
\<close>

datatype panic = SliceBoundsOutOfRange

text \<open>\<open>s[lo:hi]\<close>, \<open>s[lo:]\<close> and \<open>s[:hi]\<close> with Go's run-time bounds check.\<close>

definition slice :: "string \<Rightarrow> int \<Rightarrow> int \<Rightarrow> panic + string" where
  "slice s lo hi =
     (if 0 \<le> lo \<and> lo \<le> hi \<and> hi \<le> int (length s)
      then Inr (take (nat (hi - lo)) (drop (nat lo) s))
      else Inl SliceBoundsOutOfRange)"

definition slice_from :: "string \<Rightarrow> int \<Rightarrow> panic + string" where
  "slice_from s lo = slice s lo (int (length s))"

definition slice_to :: "string \<Rightarrow> int \<Rightarrow> panic + string" where
  "slice_to s hi = slice s 0 hi"

text \<open>
  \<open>strings.Index(s, substr)\<close>: the index of the first instance of \<open>substr\<close> in
  \<open>s\<close>, or \<open>-1\<close> if \<open>substr\<close> is not present in \<open>s\<close>.
\<close>

fun Index :: "string \<Rightarrow> string \<Rightarrow> int" where
  "Index [] substr = (if substr = [] then 0 else - 1)"
| "Index (c # s) substr =
     (if prefix substr (c # s) then 0
      else (let x = Index s substr in if x < 0 then - 1 else x + 1))"

text \<open>\<open>strings.Contains(s, substr)\<close> is \<open>Index(s, substr) >= 0\<close>.\<close>

definition Contains :: "string \<Rightarrow> string \<Rightarrow> bool" where
  "Contains s substr = (0 \<le> Index s substr)"

text \<open>\<open>strings.HasPrefix(s, prefix)\<close>.\<close>

definition HasPrefix :: "string \<Rightarrow> string \<Rightarrow> bool" where
  "HasPrefix s p = prefix p s"

text \<open>
  \<open>strings.SplitN(s, sep, 2)\<close> for a non-empty separator: the text before the first
  \<open>sep\<close> and the text after it, or \<open>s\<close> alone when \<open>sep\<close> does not occur.
\<close>

definition SplitN2 :: "string \<Rightarrow> string \<Rightarrow> string list" where
  "SplitN2 s sep =
     (let x = Index s sep in
      if x < 0 then [s]
      else [take (nat x) s, drop (nat x + length sep) s])"

section \<open>The options of a run\<close>

record options =
  baseURL :: string
  input :: string
  replace :: string
  showBase :: bool
  placeholders :: "string \<rightharpoonup> string"
  placeholderArgs :: "string list"

subsection \<open>parsePlaceholders\<close>

text \<open>The body of the \<open>for\<close> loop of \<open>parsePlaceholders\<close>, for one argument \<open>p\<close>.\<close>

definition parsePlaceholder :: "string \<Rightarrow> options \<Rightarrow> options" where
  "parsePlaceholder p opt =
     (let parts = SplitN2 p ''='' in
      if length parts = 2
      then (let name = parts ! 0; value = parts ! 1
            in opt\<lparr>placeholders := (placeholders opt)(name \<mapsto> value)\<rparr>)
      else opt)"

definition parsePlaceholders :: "options \<Rightarrow> options" where
  "parsePlaceholders opt = fold parsePlaceholder (placeholderArgs opt) opt"

subsection \<open>replaceNth\<close>

function replaceNth_loop ::
  "string \<Rightarrow> string \<Rightarrow> string \<Rightarrow> int \<Rightarrow> int \<Rightarrow> int \<Rightarrow> panic + string" where
  "replaceNth_loop s old new n m i =
     (if m \<le> n then
        (case slice_from s i of
           Inl e \<Rightarrow> Inl e
         | Inr t \<Rightarrow>
             (let x = Index t old in
              if x < 0 then Inr s
              else if m = n then
                (case slice_to s (i + x) of
                   Inl e \<Rightarrow> Inl e
                 | Inr a \<Rightarrow>
                     (case slice_from s (i + x + int (length old)) of
                        Inl e \<Rightarrow> Inl e
                      | Inr b \<Rightarrow> Inr (a @ new @ b)))
              else replaceNth_loop s old new n (m + 1) (i + x + int (length old))))
      else Inr s)"
  by pat_completeness auto
termination
  by (relation "measure (\<lambda>(s, old, new, n, m, i). nat (n + 1 - m))") auto

definition replaceNth :: "string \<Rightarrow> string \<Rightarrow> string \<Rightarrow> int \<Rightarrow> panic + string" where
  "replaceNth s old new n = replaceNth_loop s old new n 1 0"

subsection \<open>replacePlaceholders\<close>

text \<open>
  The regular expression is \<^verbatim>\<open>\{([^{}]+)\}\<close>: an opening brace, one or more characters
  that are not braces, a closing brace. The class excludes the closing brace, so a match
  that starts at an opening brace takes the whole run of non-brace characters after it
  and needs the closing brace right behind that run.
\<close>

definition nameChar :: "char \<Rightarrow> bool" where
  "nameChar c = (c \<noteq> CHR ''{'' \<and> c \<noteq> CHR ''}'')"

text \<open>The match of the expression at the very start of \<open>s\<close> and the text behind it.\<close>

definition matchPrefix :: "string \<Rightarrow> (string \<times> string) option" where
  "matchPrefix s =
     (case s of
        [] \<Rightarrow> None
      | c # cs \<Rightarrow>
          if c = CHR ''{'' then
            (case dropWhile nameChar cs of
               [] \<Rightarrow> None
             | d # rest \<Rightarrow>
                 if takeWhile nameChar cs \<noteq> [] \<and> d = CHR ''}''
                 then Some (c # takeWhile nameChar cs @ [d], rest)
                 else None)
          else None)"

lemma matchPrefix_shorter:
  "matchPrefix s = Some (m, rest) \<Longrightarrow> length rest < length s"
proof -
  assume a: "matchPrefix s = Some (m, rest)"
  then obtain c cs where s: "s = c # cs"
    by (cases s) (auto simp: matchPrefix_def)
  from a s obtain d where d: "dropWhile nameChar cs = d # rest"
    by (auto simp: matchPrefix_def split: if_splits list.splits)
  have "length (dropWhile nameChar cs) \<le> length cs"
    by (rule length_dropWhile_le)
  with d s show ?thesis by simp
qed

text \<open>
  \<open>re.ReplaceAllStringFunc(src, repl)\<close> for this expression: the matches are found
  from left to right, the search resuming behind each match; the text between matches is
  copied and each match is replaced by what \<open>repl\<close> returns for it. A panic of \<open>repl\<close>
  ends the call.
\<close>

function ReplaceAllStringFunc ::
  "string \<Rightarrow> (string \<Rightarrow> panic + string) \<Rightarrow> panic + string" where
  "ReplaceAllStringFunc [] repl = Inr []"
| "ReplaceAllStringFunc (c # cs) repl =
     (case matchPrefix (c # cs) of
        Some (m, rest) \<Rightarrow>
          (case repl m of
             Inl e \<Rightarrow> Inl e
           | Inr v \<Rightarrow>
               (case ReplaceAllStringFunc rest repl of
                  Inl e \<Rightarrow> Inl e
                | Inr r \<Rightarrow> Inr (v @ r)))
      | None \<Rightarrow>
          (case ReplaceAllStringFunc cs repl of
             Inl e \<Rightarrow> Inl e
           | Inr r \<Rightarrow> Inr (c # r)))"
  by pat_completeness auto
termination
  by (relation "measure (\<lambda>(s, repl). length s)") (auto dest: matchPrefix_shorter)

text \<open>The function literal that \<open>replacePlaceholders\<close> passes as \<open>repl\<close>.\<close>

definition resolve :: "options \<Rightarrow> string \<Rightarrow> panic + string" where
  "resolve opt match =
     (case slice match 1 (int (length match) - 1) of
        Inl e \<Rightarrow> Inl e
      | Inr name \<Rightarrow>
          (case placeholders opt name of
             Some value \<Rightarrow> Inr value
           | None \<Rightarrow> if replace opt \<noteq> [] then Inr (replace opt) else Inr match))"

definition replacePlaceholders :: "options \<Rightarrow> string \<Rightarrow> panic + string" where
  "replacePlaceholders opt path = ReplaceAllStringFunc path (resolve opt)"

section \<open>main\<close>

text \<open>
  The XML library is outside the program. A loaded document is modelled by what the three
  queries of \<open>main\<close> return on it: the text of the first \<open>//application/@xmlns\<close>
  node and of the first \<open>//resources/@base\<close> node (\<open>None\<close> for \<open>nil\<close>), and the
  texts of the \<open>//resource/@path\<close> nodes in the order \<open>xmlquery.Find\<close> yields them.
\<close>

record document =
  application_xmlns :: "string option"
  resources_base :: "string option"
  resource_paths :: "string list"

text \<open>
  The world outside: \<open>LoadURL\<close> gives the document that \<open>xmlquery.LoadURL\<close> returns
  (\<open>None\<close> for \<open>nil\<close>); \<open>Open\<close> gives \<open>None\<close> when \<open>os.Open\<close> fails and otherwise the
  document that \<open>xmlquery.Parse\<close> returns for the opened file (\<open>None\<close> for \<open>nil\<close>).
\<close>

record world =
  LoadURL :: "string \<Rightarrow> document option"
  Open :: "string \<Rightarrow> document option option"

text \<open>
  What a run leaves behind: the chunks written to standard output (one per
  \<open>fmt.Printf\<close>), the chunks written to the error stream, and how the process ended.
\<close>

datatype ending = Exit int | Panicked panic

record outcome =
  stdout :: "string list"
  stderr :: "string list"
  status :: ending

text \<open>\<open>errorExit\<close> after the chunks \<open>out\<close> have been printed.\<close>

definition errorExit :: "string list \<Rightarrow> string \<Rightarrow> outcome" where
  "errorExit out message =
     \<lparr>stdout = out, stderr = [''Error! '' @ message @ [CHR 0x0A]], status = Exit 1\<rparr>"

text \<open>
  The body of the loop over the path nodes, lines 173 to 180, in three steps: the
  concatenation, the placeholder replacement, the conditional call of \<open>replaceNth\<close>.
\<close>

definition compose :: "options \<Rightarrow> string \<Rightarrow> string" where
  "compose opt pathText = baseURL opt @ pathText"

definition collapse :: "options \<Rightarrow> string \<Rightarrow> panic + string" where
  "collapse opt path =
     (if baseURL opt \<noteq> [] then replaceNth path ''//'' ''/'' 2 else Inr path)"

definition renderPath :: "options \<Rightarrow> string \<Rightarrow> panic + string" where
  "renderPath opt pathText =
     (case replacePlaceholders opt (compose opt pathText) of
        Inl e \<Rightarrow> Inl e
      | Inr path \<Rightarrow> collapse opt path)"

text \<open>The loop: \<open>out\<close> is what has been printed so far.\<close>

fun printPaths :: "options \<Rightarrow> string list \<Rightarrow> string list \<Rightarrow> outcome" where
  "printPaths opt [] out = \<lparr>stdout = out, stderr = [], status = Exit 0\<rparr>"
| "printPaths opt (p # ps) out =
     (case renderPath opt p of
        Inl e \<Rightarrow> \<lparr>stdout = out, stderr = [], status = Panicked e\<rparr>
      | Inr path \<Rightarrow> printPaths opt ps (out @ [path @ [CHR 0x0A]]))"

text \<open>Lines 145 to 158: \<open>Inl\<close> is the run ended by \<open>errorExit\<close>.\<close>

definition load :: "world \<Rightarrow> options \<Rightarrow> outcome + document" where
  "load w opt =
     (if HasPrefix (input opt) ''http'' then
        (case LoadURL w (input opt) of
           None \<Rightarrow> Inl (errorExit [] ''Can't parse WADL file.'')
         | Some wadl \<Rightarrow> Inr wadl)
      else
        (case Open w (input opt) of
           None \<Rightarrow> Inl (errorExit [] (''Can't open '' @ [CHR 0x27] @ input opt @ [CHR 0x27] @ '' file.''))
         | Some None \<Rightarrow> Inl (errorExit [] ''Can't parse WADL file.'')
         | Some (Some wadl) \<Rightarrow> Inr wadl))"

text \<open>Lines 165 to 170.\<close>

definition setBaseURL :: "document \<Rightarrow> options \<Rightarrow> options" where
  "setBaseURL wadl opt =
     (case resources_base wadl of
        Some base \<Rightarrow> if showBase opt then opt\<lparr>baseURL := base\<rparr> else opt\<lparr>baseURL := []\<rparr>
      | None \<Rightarrow> opt\<lparr>baseURL := []\<rparr>)"

text \<open>\<open>main\<close>, from the options as \<open>flag.Parse\<close> has left them.\<close>

definition main :: "world \<Rightarrow> options \<Rightarrow> outcome" where
  "main w opt0 =
     (let opt = parsePlaceholders opt0 in
      if input opt = [] then errorExit [] ''Flag -i is required, use -h flag for help.''
      else
        (case load w opt of
           Inl out \<Rightarrow> out
         | Inr wadl \<Rightarrow>
             (case application_xmlns wadl of
                None \<Rightarrow> errorExit [] ''Not a WADL file.''
              | Some xmlns \<Rightarrow>
                  if \<not> Contains xmlns ''wadl.dev.java.net''
                  then errorExit [] ''Not a WADL file.''
                  else printPaths (setBaseURL wadl opt) (resource_paths wadl) [])))"

section \<open>The specification's notions\<close>

text \<open>
  The definitions of this section follow the words of the specification, not the code:
  they are what the code is compared with.
\<close>

text \<open>
  The positions of the occurrences of \<open>old\<close> in \<open>s\<close>, counted as the specification
  counts them: from left to right, the scan for the next occurrence resuming right behind
  the matched substring. \<open>k\<close> is the position of the first character of \<open>s\<close>. (For the
  empty \<open>old\<close> the count has no end; the list is empty then.)
\<close>

function spec_occurrences :: "string \<Rightarrow> string \<Rightarrow> nat \<Rightarrow> nat list" where
  "spec_occurrences old s k =
     (if old = [] \<or> s = [] then []
      else if prefix old s
        then k # spec_occurrences old (drop (length old) s) (k + length old)
        else spec_occurrences old (tl s) (Suc k))"
  by pat_completeness auto
termination
  by (relation "measure (\<lambda>(old, s, k). length s)") (auto simp: diff_less)

text \<open>
  The second-occurrence collapse rule: the second occurrence of the two-character
  substring \<open>//\<close>, if there is one, is replaced by a single \<open>/\<close>.
\<close>

definition spec_collapse :: "string \<Rightarrow> string" where
  "spec_collapse s =
     (case spec_occurrences ''//'' s 0 of
        p1 # p2 # ps \<Rightarrow> take p2 s @ ''/'' @ drop (p2 + 2) s
      | _ \<Rightarrow> s)"

text \<open>Replacing the \<open>n\<close>-th occurrence (counted from 1), if there is one.\<close>

definition spec_replaceNth :: "string \<Rightarrow> string \<Rightarrow> string \<Rightarrow> int \<Rightarrow> string" where
  "spec_replaceNth s old new n =
     (let occ = spec_occurrences old s 0 in
      if 1 \<le> n \<and> n \<le> int (length occ)
      then take (occ ! nat (n - 1)) s @ new @ drop (occ ! nat (n - 1) + length old) s
      else s)"

text \<open>
  A placeholder token: an opening brace, followed by one or more characters containing
  neither brace, followed by a closing brace.
\<close>

definition isToken :: "string \<Rightarrow> bool" where
  "isToken t =
     (3 \<le> length t \<and> hd t = CHR ''{'' \<and> last t = CHR ''}'' \<and>
      list_all (\<lambda>c. c \<noteq> CHR ''{'' \<and> c \<noteq> CHR ''}'') (butlast (tl t)))"

text \<open>A string has a match when one of its substrings is a token.\<close>

definition hasMatch :: "string \<Rightarrow> bool" where
  "hasMatch s = list_ex isToken (sublists s)"

text \<open>
  The Placeholder Resolver: an explicit value first, then the default replacement if it
  is non-empty, then the token itself with its braces.
\<close>

definition spec_resolver :: "options \<Rightarrow> string \<Rightarrow> string" where
  "spec_resolver opt name =
     (case placeholders opt name of
        Some v \<Rightarrow> v
      | None \<Rightarrow> if replace opt \<noteq> [] then replace opt else ''{'' @ name @ ''}'')"

text \<open>The name of a token: the text between its braces.\<close>

definition spec_name :: "string \<Rightarrow> string" where
  "spec_name t = butlast (tl t)"

text \<open>
  A string cut at its matches: the text \<open>l0\<close> before the first match, then each match
  \<open>t\<close> with the text \<open>l\<close> between it and the next match (or the end). The cut is the
  list of all matches when no piece of text between them has a match of its own.
\<close>

definition spec_source :: "string \<Rightarrow> (string \<times> string) list \<Rightarrow> string" where
  "spec_source l0 tls = l0 @ concat (map (\<lambda>(t, l). t @ l) tls)"

definition spec_segmented :: "string \<Rightarrow> (string \<times> string) list \<Rightarrow> bool" where
  "spec_segmented l0 tls =
     (\<not> hasMatch l0 \<and> list_all (\<lambda>(t, l). isToken t \<and> \<not> hasMatch l) tls)"

text \<open>
  The Template Renderer on a string cut at its matches: each match is replaced by the
  Resolver's value for its name, the text between matches stays.
\<close>

definition spec_rendered :: "options \<Rightarrow> string \<Rightarrow> (string \<times> string) list \<Rightarrow> string" where
  "spec_rendered opt l0 tls =
     l0 @ concat (map (\<lambda>(t, l). spec_resolver opt (spec_name t) @ l) tls)"

text \<open>
  A caller-supplied placeholder argument: the first \<open>=\<close> splits the name from the value;
  an argument without \<open>=\<close> gives no entry.
\<close>

definition spec_entry :: "string \<Rightarrow> (string \<times> string) option" where
  "spec_entry a =
     (if CHR ''='' \<in> set a
      then Some (takeWhile (\<lambda>c. c \<noteq> CHR ''='') a, tl (dropWhile (\<lambda>c. c \<noteq> CHR ''='') a))
      else None)"

text \<open>
  The mapping built from the arguments: a name is mapped to the value of the last entry
  with that name.
\<close>

definition spec_placeholders :: "string list \<Rightarrow> (string \<rightharpoonup> string)" where
  "spec_placeholders args name =
     (let es = filter (\<lambda>(n, v). n = name) (List.map_filter spec_entry args)
      in if es = [] then None else Some (snd (last es)))"

text \<open>
  A document lacks the WADL namespace marker when the \<open>xmlns\<close> attribute is absent or
  its text does not have \<open>wadl.dev.java.net\<close> as a substring.
\<close>

definition spec_lacks_marker :: "document \<Rightarrow> bool" where
  "spec_lacks_marker wadl =
     (case application_xmlns wadl of
        None \<Rightarrow> True
      | Some xmlns \<Rightarrow> \<not> sublist ''wadl.dev.java.net'' xmlns)"

text \<open>
  The order of the specification's pipeline: Path Composer (concatenation and collapse),
  then Template Renderer.
\<close>

definition spec_pipeline :: "options \<Rightarrow> string \<Rightarrow> panic + string" where
  "spec_pipeline opt pathText =
     (case collapse opt (compose opt pathText) of
        Inl e \<Rightarrow> Inl e
      | Inr composed \<Rightarrow> replacePlaceholders opt composed)"

section \<open>Options that render alike\<close>

text \<open>
  Two option records agree when they have the same base URL, the same default
  replacement and the same value for every non-empty placeholder name.
\<close>

definition agree :: "options \<Rightarrow> options \<Rightarrow> bool" where
  "agree a b =
     (baseURL a = baseURL b \<and> replace a = replace b \<and>
      (\<forall>k. k \<noteq> [] \<longrightarrow> placeholders a k = placeholders b k))"

section \<open>Example runs\<close>

text \<open>A run that shows the base URL, with no placeholder value configured.\<close>

definition example_options :: options where
  "example_options =
     \<lparr>baseURL = ''http://h.tld/'', input = ''app.wadl'', replace = [], showBase = True,
      placeholders = Map.empty, placeholderArgs = []\<rparr>"

text \<open>
  A run with \<^verbatim>\<open>-r XXX\<close>, an explicit value for \<open>id\<close> that is itself a token, and an
  explicit empty value for \<open>e\<close>.
\<close>

definition example_values :: options where
  "example_values =
     \<lparr>baseURL = [], input = ''app.wadl'', replace = ''XXX'', showBase = False,
      placeholders = Map.empty(''id'' \<mapsto> ''{oid}'', ''e'' \<mapsto> []), placeholderArgs = []\<rparr>"

text \<open>A run whose arguments repeat a name, lack the \<open>=\<close>, and have an empty name.\<close>

definition example_args :: options where
  "example_args =
     \<lparr>baseURL = [], input = ''app.wadl'', replace = [], showBase = False,
      placeholders = Map.empty,
      placeholderArgs = [''id=42'', ''novalue'', ''id=43'', ''=v'', ''a=b=c'']\<rparr>"

text \<open>A run that shows the base URL, with the explicit empty value \<^verbatim>\<open>-p id=\<close>.\<close>

definition example_empty_value :: options where
  "example_empty_value =
     \<lparr>baseURL = ''http://h.tld'', input = ''app.wadl'', replace = [], showBase = True,
      placeholders = Map.empty(''id'' \<mapsto> []), placeholderArgs = [''id='']\<rparr>"

text \<open>A WADL document, and a world in which the file \<open>app.wadl\<close> holds it.\<close>

definition example_document :: document where
  "example_document =
     \<lparr>application_xmlns = Some ''http://wadl.dev.java.net/2009/02'',
      resources_base = Some ''http://h.tld'',
      resource_paths = [''/a'', ''//b//c//{id}'']\<rparr>"

definition example_world :: world where
  "example_world =
     \<lparr>LoadURL = (\<lambda>url. None),
      Open = (\<lambda>name. if name = ''app.wadl'' then Some (Some example_document) else None)\<rparr>"

text \<open>The same document with an empty \<open>base\<close> attribute.\<close>

definition example_empty_base :: world where
  "example_empty_base =
     \<lparr>LoadURL = (\<lambda>url. None),
      Open = (\<lambda>name. Some (Some (example_document\<lparr>resources_base := Some []\<rparr>)))\<rparr>"

text \<open>
  A world whose URLs give an XHTML document and whose files give a document without an
  \<open>xmlns\<close> attribute.
\<close>

definition example_not_wadl :: world where
  "example_not_wadl =
     \<lparr>LoadURL = (\<lambda>url. Some \<lparr>application_xmlns = Some ''http://www.w3.org/1999/xhtml'',
                            resources_base = Some ''http://h.tld/'',
                            resource_paths = [''/a'']\<rparr>),
      Open = (\<lambda>name. Some (Some \<lparr>application_xmlns = None,
                            resources_base = None,
                            resource_paths = [''/a'']\<rparr>))\<rparr>"

section \<open>Properties of the primitives\<close>

lemma Index_ge: "- 1 \<le> Index s sub"
  by (induction s) (auto simp: Let_def)

lemma Index_neg: "Index s sub < 0 \<longleftrightarrow> Index s sub = - 1"
  using Index_ge [of s sub] by auto

lemma Index_prefix: "0 \<le> Index s sub \<Longrightarrow> prefix sub (drop (nat (Index s sub)) s)"
proof (induction s)
  case Nil
  then show ?case by (auto split: if_splits)
next
  case (Cons c s)
  show ?case
  proof (cases "prefix sub (c # s)")
    case True
    then show ?thesis by simp
  next
    case False
    with Cons.prems have nn: "0 \<le> Index s sub"
      by (auto simp: Let_def split: if_splits)
    with False have "Index (c # s) sub = Index s sub + 1"
      by (auto simp: Let_def)
    moreover from nn have "nat (Index s sub + 1) = Suc (nat (Index s sub))" by simp
    ultimately show ?thesis using Cons.IH [OF nn] by simp
  qed
qed

lemma Index_bound: "0 \<le> Index s sub \<Longrightarrow> Index s sub + int (length sub) \<le> int (length s)"
proof (induction s)
  case Nil
  then show ?case by (auto split: if_splits)
next
  case (Cons c s)
  show ?case
  proof (cases "prefix sub (c # s)")
    case True
    then show ?thesis using prefix_length_le [OF True] by simp
  next
    case False
    with Cons.prems have nn: "0 \<le> Index s sub"
      by (auto simp: Let_def split: if_splits)
    with False have "Index (c # s) sub = Index s sub + 1"
      by (auto simp: Let_def)
    then show ?thesis using Cons.IH [OF nn] by simp
  qed
qed

declare spec_occurrences.simps [simp del]
declare replaceNth_loop.simps [simp del]

lemma occ_no: "old \<noteq> [] \<Longrightarrow> Index s old < 0 \<Longrightarrow> spec_occurrences old s k = []"
proof (induction s arbitrary: k)
  case Nil
  then show ?case by (simp add: spec_occurrences.simps)
next
  case (Cons c s)
  from Cons.prems have np: "\<not> prefix old (c # s)" and neg: "Index s old < 0"
    by (auto simp: Let_def split: if_splits)
  show ?case
    using np Cons.IH [OF Cons.prems(1) neg, of "Suc k"] Cons.prems(1)
    by (subst spec_occurrences.simps) simp
qed

lemma occ_yes:
  "old \<noteq> [] \<Longrightarrow> 0 \<le> Index s old \<Longrightarrow>
   spec_occurrences old s k =
     (k + nat (Index s old)) #
       spec_occurrences old (drop (nat (Index s old) + length old) s)
         (k + nat (Index s old) + length old)"
proof (induction s arbitrary: k)
  case Nil
  then show ?case by (auto split: if_splits)
next
  case (Cons c s)
  show ?case
  proof (cases "prefix old (c # s)")
    case True
    then show ?thesis using Cons.prems(1)
      by (subst spec_occurrences.simps) simp
  next
    case False
    with Cons.prems have nn: "0 \<le> Index s old"
      by (auto simp: Let_def split: if_splits)
    with False have ix: "Index (c # s) old = Index s old + 1"
      by (auto simp: Let_def)
    from nn have nat: "nat (Index s old + 1) = Suc (nat (Index s old))" by simp
    show ?thesis
      unfolding ix nat
      using False Cons.prems(1) Cons.IH [OF Cons.prems(1) nn, of "Suc k"]
      by (subst spec_occurrences.simps) simp
  qed
qed

lemma loop_occ:
  "old \<noteq> [] \<Longrightarrow> 0 \<le> i \<Longrightarrow> i \<le> int (length s) \<Longrightarrow>
   replaceNth_loop s old new n m i =
     (let occ = spec_occurrences old (drop (nat i) s) (nat i) in
      if m \<le> n \<and> nat (n - m) < length occ
      then Inr (take (occ ! nat (n - m)) s @ new @ drop (occ ! nat (n - m) + length old) s)
      else Inr s)"
proof (induction s old new n m i rule: replaceNth_loop.induct)
  case (1 s old new n m i)
  let ?t = "drop (nat i) s"
  let ?x = "Index ?t old"
  have sf: "slice_from s i = Inr ?t"
    using "1.prems" by (simp add: slice_from_def slice_def)
  show ?case
  proof (cases "m \<le> n")
    case False
    then show ?thesis by (subst replaceNth_loop.simps) simp
  next
    case mn: True
    show ?thesis
    proof (cases "?x < 0")
      case True
      then show ?thesis using mn sf occ_no [OF "1.prems"(1) True]
        by (subst replaceNth_loop.simps) simp
    next
      case False
      then have nn: "0 \<le> ?x" by simp
      have bd: "?x + int (length old) \<le> int (length ?t)" by (rule Index_bound [OF nn])
      have occ: "spec_occurrences old ?t (nat i) =
          (nat i + nat ?x) #
            spec_occurrences old (drop (nat ?x + length old) ?t) (nat i + nat ?x + length old)"
        by (rule occ_yes [OF "1.prems"(1) nn])
      have lim: "i + ?x + int (length old) \<le> int (length s)"
        using bd "1.prems" by simp
      have natsum: "nat (i + ?x) = nat i + nat ?x" "nat (i + ?x + int (length old)) = nat i + nat ?x + length old"
        using nn "1.prems" by (simp_all add: nat_add_distrib)
      show ?thesis
      proof (cases "m = n")
        case True
        have st: "slice_to s (i + ?x) = Inr (take (nat i + nat ?x) s)"
          using lim nn "1.prems" by (simp add: slice_to_def slice_def natsum)
        have sf2: "slice_from s (i + ?x + int (length old)) = Inr (drop (nat i + nat ?x + length old) s)"
          using lim nn "1.prems" by (simp add: slice_from_def slice_def natsum)
        show ?thesis using True sf False st sf2 occ
          by (subst replaceNth_loop.simps) (simp add: Let_def)
      next
        case ne: False
        define j where "j = nat (n - (m + 1))"
        define occ' where "occ' = spec_occurrences old (drop (nat i + nat ?x + length old) s) (nat i + nat ?x + length old)"
        have lt: "m < n" using mn ne by simp
        have idx: "nat (n - m) = Suc j" using lt by (simp add: j_def)
        have m1: "m + 1 \<le> n" using lt by simp
        have ih: "replaceNth_loop s old new n (m + 1) (i + ?x + int (length old)) =
           (if j < length occ'
            then Inr (take (occ' ! j) s @ new @ drop (occ' ! j + length old) s)
            else Inr s)"
          unfolding j_def occ'_def natsum(2) [symmetric]
          using "1.IH" [OF mn sf refl False ne "1.prems"(1)] lim nn "1.prems"(2) m1
          by (simp add: Let_def)
        have dd: "drop (nat ?x + length old) ?t = drop (nat i + nat ?x + length old) s"
          by (simp add: add.commute add.left_commute)
        have occ2: "spec_occurrences old ?t (nat i) = (nat i + nat ?x) # occ'"
          unfolding occ'_def using occ dd by simp
        have step: "replaceNth_loop s old new n m i =
            replaceNth_loop s old new n (m + 1) (i + ?x + int (length old))"
          using mn ne sf False by (subst replaceNth_loop.simps) (simp add: Let_def)
        show ?thesis
          unfolding step ih Let_def occ2 idx using mn by simp
      qed
    qed
  qed
qed

lemma replaceNth_spec:
  "old \<noteq> [] \<Longrightarrow> replaceNth s old new n = Inr (spec_replaceNth s old new n)"
proof -
  assume ne: "old \<noteq> []"
  have "nat (n - 1) < length (spec_occurrences old s 0) \<longleftrightarrow> n \<le> int (length (spec_occurrences old s 0))" if "1 \<le> n"
    using that by auto
  then show ?thesis
    unfolding replaceNth_def spec_replaceNth_def
    using loop_occ [OF ne, of 0 s new n 1] by (auto simp: Let_def)
qed

lemma loop_total:
  "0 \<le> i \<Longrightarrow> i \<le> int (length s) \<Longrightarrow>
   \<exists>r. replaceNth_loop s old new n m i = Inr r \<and>
     (r = s \<or>
      (\<exists>p. m \<le> n \<and> p + length old \<le> length s \<and> take (length old) (drop p s) = old \<and>
           r = take p s @ new @ drop (p + length old) s))"
proof (induction s old new n m i rule: replaceNth_loop.induct)
  case (1 s old new n m i)
  let ?t = "drop (nat i) s"
  let ?x = "Index ?t old"
  have sf: "slice_from s i = Inr ?t"
    using "1.prems" by (simp add: slice_from_def slice_def)
  show ?case
  proof (cases "m \<le> n")
    case False
    then show ?thesis by (subst replaceNth_loop.simps) simp
  next
    case mn: True
    show ?thesis
    proof (cases "?x < 0")
      case True
      then show ?thesis using mn sf
        by (subst replaceNth_loop.simps) simp
    next
      case False
      then have nn: "0 \<le> ?x" by simp
      have bd: "?x + int (length old) \<le> int (length ?t)" by (rule Index_bound [OF nn])
      have lim: "i + ?x + int (length old) \<le> int (length s)"
        using bd "1.prems" by simp
      have natsum: "nat (i + ?x) = nat i + nat ?x"
        "nat (i + ?x + int (length old)) = nat i + nat ?x + length old"
        using nn "1.prems" by (simp_all add: nat_add_distrib)
      show ?thesis
      proof (cases "m = n")
        case True
        have st: "slice_to s (i + ?x) = Inr (take (nat i + nat ?x) s)"
          using lim nn "1.prems" by (simp add: slice_to_def slice_def natsum)
        have sf2: "slice_from s (i + ?x + int (length old)) =
            Inr (drop (nat i + nat ?x + length old) s)"
          using lim nn "1.prems" by (simp add: slice_from_def slice_def natsum)
        have res: "replaceNth_loop s old new n m i =
            Inr (take (nat i + nat ?x) s @ new @ drop (nat i + nat ?x + length old) s)"
          using True sf False st sf2
          by (subst replaceNth_loop.simps) (simp add: Let_def)
        have "prefix old (drop (nat ?x) ?t)" by (rule Index_prefix [OF nn])
        then have "take (length old) (drop (nat i + nat ?x) s) = old"
          by (auto simp: prefix_def add.commute)
        moreover have "nat i + nat ?x + length old \<le> length s"
          using lim natsum(2) by linarith
        ultimately show ?thesis using res mn by blast
      next
        case ne: False
        have step: "replaceNth_loop s old new n m i =
            replaceNth_loop s old new n (m + 1) (i + ?x + int (length old))"
          using mn ne sf False by (subst replaceNth_loop.simps) (simp add: Let_def)
        have "0 \<le> i + ?x + int (length old)" using nn "1.prems" by simp
        from "1.IH" [OF mn sf refl False ne this lim] mn
        show ?thesis unfolding step by force
      qed
    qed
  qed
qed

lemma replaceNth_nonpositive: "n \<le> 0 \<Longrightarrow> replaceNth s old new n = Inr s"
  unfolding replaceNth_def by (subst replaceNth_loop.simps) simp

lemma replaceNth_few:
  "old \<noteq> [] \<Longrightarrow> int (length (spec_occurrences old s 0)) < n \<Longrightarrow>
   replaceNth s old new n = Inr s"
  by (simp add: replaceNth_spec spec_replaceNth_def)

lemma replaceNth_collapse: "replaceNth s ''//'' ''/'' 2 = Inr (spec_collapse s)"
proof -
  have "spec_replaceNth s ''//'' ''/'' 2 = spec_collapse s"
    unfolding spec_replaceNth_def spec_collapse_def
    by (cases "spec_occurrences ''//'' s 0" rule: list.exhaust)
       (auto simp: Let_def split: list.splits)
  then show ?thesis by (simp add: replaceNth_spec)
qed

section \<open>Properties of the matcher\<close>

lemma nameChar_eq: "nameChar = (\<lambda>c. c \<noteq> CHR ''{'' \<and> c \<noteq> CHR ''}'')"
  by (simp add: fun_eq_iff nameChar_def)

lemma isToken_iff:
  "isToken t \<longleftrightarrow>
     (\<exists>name. name \<noteq> [] \<and> list_all nameChar name \<and> t = CHR ''{'' # name @ [CHR ''}''])"
proof
  assume a: "isToken t"
  then obtain c u where t: "t = c # u" and c: "c = CHR ''{''" and lu: "2 \<le> length u"
    by (cases t) (auto simp: isToken_def)
  from lu have "u \<noteq> []" by auto
  then have u: "u = butlast u @ [last u]" by simp
  from a t \<open>u \<noteq> []\<close> have l: "last u = CHR ''}''" by (simp add: isToken_def)
  from lu have "butlast u \<noteq> []" by (cases u rule: rev_cases) auto
  moreover from a t have "list_all nameChar (butlast u)"
    by (simp add: isToken_def nameChar_eq)
  moreover have "t = CHR ''{'' # butlast u @ [CHR ''}'']" using t c u l by simp
  ultimately show "\<exists>name. name \<noteq> [] \<and> list_all nameChar name \<and> t = CHR ''{'' # name @ [CHR ''}'']"
    by blast
next
  assume "\<exists>name. name \<noteq> [] \<and> list_all nameChar name \<and> t = CHR ''{'' # name @ [CHR ''}'']"
  then obtain name where "name \<noteq> []" "list_all nameChar name" "t = CHR ''{'' # name @ [CHR ''}'']"
    by blast
  then show "isToken t"
    by (cases name) (auto simp: isToken_def nameChar_eq)
qed

lemma hasMatch_iff: "hasMatch s \<longleftrightarrow> (\<exists>t. isToken t \<and> sublist t s)"
  by (auto simp: hasMatch_def list_ex_iff)

lemma matchPrefix_token:
  assumes "name \<noteq> []" "list_all nameChar name"
  shows "matchPrefix (CHR ''{'' # name @ CHR ''}'' # rest) =
           Some (CHR ''{'' # name @ [CHR ''}''], rest)"
proof -
  have all: "\<forall>x\<in>set name. nameChar x" using assms(2) by (simp add: list_all_iff)
  have nb: "\<not> nameChar (CHR ''}'')" by (simp add: nameChar_def)
  have tw: "takeWhile nameChar (name @ CHR ''}'' # rest) = name"
    using all nb by simp
  have dw: "dropWhile nameChar (name @ CHR ''}'' # rest) = CHR ''}'' # rest"
    using all nb by simp
  show ?thesis using assms(1) by (simp add: matchPrefix_def tw dw)
qed

lemma matchPrefix_SomeD:
  assumes "matchPrefix s = Some (m, rest)"
  shows "isToken m \<and> s = m @ rest"
proof -
  from assms obtain c cs where s: "s = c # cs" and c: "c = CHR ''{''"
    by (cases s) (auto simp: matchPrefix_def split: if_splits)
  from assms s c obtain d where d: "dropWhile nameChar cs = d # rest" "d = CHR ''}''"
    and ne: "takeWhile nameChar cs \<noteq> []" and m: "m = c # takeWhile nameChar cs @ [d]"
    by (auto simp: matchPrefix_def split: if_splits list.splits)
  have "cs = takeWhile nameChar cs @ dropWhile nameChar cs" by simp
  then have "s = m @ rest" using s m d by simp
  moreover have "list_all nameChar (takeWhile nameChar cs)"
    by (auto simp: list_all_iff dest: set_takeWhileD)
  then have "isToken m" using ne m c d unfolding isToken_iff by blast
  ultimately show ?thesis by simp
qed

lemma matchPrefix_Some_iff:
  "matchPrefix s = Some (m, rest) \<longleftrightarrow> isToken m \<and> s = m @ rest"
  by (auto dest: matchPrefix_SomeD simp: isToken_iff matchPrefix_token)

lemma matchPrefix_append_Some:
  "matchPrefix s = Some (m, rest) \<Longrightarrow> matchPrefix (s @ x) = Some (m, rest @ x)"
  by (simp add: matchPrefix_Some_iff)

lemma matchPrefix_append_None:
  assumes "matchPrefix (c # cs) = None" "isToken t"
  shows "matchPrefix ((c # cs) @ t @ post) = None"
proof (cases "c = CHR ''{''")
  case False
  then show ?thesis by (simp add: matchPrefix_def)
next
  case True
  from assms(2) obtain name where t: "t = CHR ''{'' # name @ [CHR ''}'']"
    unfolding isToken_iff by blast
  have nb: "\<not> nameChar (CHR ''{'')" by (simp add: nameChar_def)
  show ?thesis
  proof (cases "dropWhile nameChar cs")
    case Nil
    then have all: "\<forall>x\<in>set cs. nameChar x" by simp
    have "dropWhile nameChar (cs @ t @ post) = t @ post"
      using all nb t by simp
    then show ?thesis using True t by (simp add: matchPrefix_def)
  next
    case (Cons d rest)
    then have ex: "\<exists>x\<in>set cs. \<not> nameChar x"
      by (metis dropWhile_eq_Nil_conv list.distinct(1))
    then obtain x where x: "x \<in> set cs" "\<not> nameChar x" by blast
    have tw: "takeWhile nameChar (cs @ t @ post) = takeWhile nameChar cs"
      using x by (rule takeWhile_append1)
    have dw: "dropWhile nameChar (cs @ t @ post) = d # rest @ t @ post"
      using dropWhile_append1 [of x cs nameChar "t @ post"] x Cons by simp
    show ?thesis using assms(1) True Cons
      by (simp add: matchPrefix_def tw dw split: if_splits)
  qed
qed

lemma RASF_token:
  assumes "isToken t"
  shows "ReplaceAllStringFunc (pre @ t @ post) f =
     (case ReplaceAllStringFunc pre f of
        Inl e \<Rightarrow> Inl e
      | Inr a \<Rightarrow>
          (case f t of
             Inl e \<Rightarrow> Inl e
           | Inr v \<Rightarrow>
               (case ReplaceAllStringFunc post f of
                  Inl e \<Rightarrow> Inl e
                | Inr b \<Rightarrow> Inr (a @ v @ b))))"
proof (induction pre f rule: ReplaceAllStringFunc.induct)
  case (1 repl)
  from assms obtain c u where t: "t = c # u" by (cases t) (auto simp: isToken_def)
  have "matchPrefix (t @ post) = Some (t, post)"
    using assms by (simp add: matchPrefix_Some_iff)
  then show ?case using t by (simp split: sum.splits)
next
  case (2 c cs repl)
  show ?case
  proof (cases "matchPrefix (c # cs)")
    case None
    have "matchPrefix ((c # cs) @ t @ post) = None"
      by (rule matchPrefix_append_None [OF None assms])
    then show ?thesis using None "2.IH"(1) [OF None]
      by (simp split: sum.splits)
  next
    case (Some a)
    obtain m rest where a: "a = (m, rest)" by (cases a)
    have mp: "matchPrefix ((c # cs) @ t @ post) = Some (m, rest @ t @ post)"
      using Some a matchPrefix_append_Some [of "c # cs" m rest "t @ post"] by simp
    show ?thesis
    proof (cases "repl m")
      case (Inl e)
      then show ?thesis using mp Some a by simp
    next
      case (Inr v)
      show ?thesis using mp Some a Inr "2.IH"(2) [OF Some a [symmetric] Inr]
        by (simp split: sum.splits)
    qed
  qed
qed

lemma RASF_noMatch: "\<not> hasMatch s \<Longrightarrow> ReplaceAllStringFunc s f = Inr s"
proof (induction s f rule: ReplaceAllStringFunc.induct)
  case (1 repl)
  then show ?case by simp
next
  case (2 c cs repl)
  have none: "matchPrefix (c # cs) = None"
  proof (cases "matchPrefix (c # cs)")
    case (Some a)
    obtain m rest where "a = (m, rest)" by (cases a)
    with Some have "isToken m" "c # cs = m @ rest" by (auto dest: matchPrefix_SomeD)
    then have "hasMatch (c # cs)"
      unfolding hasMatch_iff by (metis prefixI prefix_imp_sublist)
    with "2.prems" show ?thesis by simp
  qed simp
  have "\<not> hasMatch cs" using "2.prems"
    unfolding hasMatch_iff by (auto simp: sublist_Cons_right)
  from "2.IH"(1) [OF none this] none show ?case by simp
qed

lemma resolve_token:
  "resolve opt (CHR ''{'' # name @ [CHR ''}'']) =
     Inr (case placeholders opt name of
            Some v \<Rightarrow> v
          | None \<Rightarrow> if replace opt \<noteq> [] then replace opt else CHR ''{'' # name @ [CHR ''}''])"
  by (simp add: resolve_def slice_def split: option.splits)

lemma RASF_total:
  "(\<And>t. isToken t \<Longrightarrow> \<exists>v. f t = Inr v) \<Longrightarrow> \<exists>r. ReplaceAllStringFunc s f = Inr r"
proof (induction s f rule: ReplaceAllStringFunc.induct)
  case (1 repl)
  then show ?case by simp
next
  case (2 c cs repl)
  show ?case
  proof (cases "matchPrefix (c # cs)")
    case None
    with "2.IH"(1) [OF None "2.prems"] show ?thesis by auto
  next
    case (Some a)
    obtain m rest where a: "a = (m, rest)" by (cases a)
    with Some have "isToken m" by (auto dest: matchPrefix_SomeD)
    then obtain v where v: "repl m = Inr v" using "2.prems" by blast
    from "2.IH"(2) [OF Some a [symmetric] v "2.prems"] Some a v show ?thesis by auto
  qed
qed

lemma replacePlaceholders_total: "\<exists>r. replacePlaceholders opt s = Inr r"
  unfolding replacePlaceholders_def
  by (rule RASF_total) (auto simp: isToken_iff resolve_token)

lemma resolve_spec: "isToken t \<Longrightarrow> resolve opt t = Inr (spec_resolver opt (spec_name t))"
  by (auto simp: isToken_iff resolve_token spec_resolver_def spec_name_def butlast_append
      split: option.splits)

lemma render_segmented:
  "spec_segmented l0 tls \<Longrightarrow>
   replacePlaceholders opt (spec_source l0 tls) = Inr (spec_rendered opt l0 tls)"
proof (induction tls arbitrary: l0)
  case Nil
  then show ?case
    by (simp add: spec_segmented_def spec_source_def spec_rendered_def
        replacePlaceholders_def RASF_noMatch)
next
  case (Cons tl tls)
  obtain t l where tl: "tl = (t, l)" by (cases tl)
  from Cons.prems tl have l0: "\<not> hasMatch l0" and t: "isToken t" and rest: "spec_segmented l tls"
    by (simp_all add: spec_segmented_def)
  have src: "spec_source l0 (tl # tls) = l0 @ t @ spec_source l tls"
    by (simp add: spec_source_def tl)
  have rnd: "spec_rendered opt l0 (tl # tls) =
      l0 @ spec_resolver opt (spec_name t) @ spec_rendered opt l tls"
    by (simp add: spec_rendered_def tl)
  have ih: "ReplaceAllStringFunc (spec_source l tls) (resolve opt) = Inr (spec_rendered opt l tls)"
    using Cons.IH [OF rest] by (simp add: replacePlaceholders_def)
  show ?case
    unfolding src rnd replacePlaceholders_def RASF_token [OF t]
    by (simp add: RASF_noMatch [OF l0] resolve_spec [OF t] ih)
qed

lemma segmentation_exists: "\<exists>l0 tls. s = spec_source l0 tls \<and> spec_segmented l0 tls"
proof (induction s rule: length_induct)
  case (1 s)
  show ?case
  proof (cases s)
    case Nil
    have "[] = spec_source [] [] \<and> spec_segmented [] []"
      by (simp add: spec_source_def spec_segmented_def hasMatch_iff isToken_def)
    with Nil show ?thesis by blast
  next
    case (Cons c cs)
    show ?thesis
    proof (cases "matchPrefix s")
      case None
      from "1.IH" Cons obtain l0 tls where cs: "cs = spec_source l0 tls" and sg: "spec_segmented l0 tls"
        by auto
      have "\<not> hasMatch (c # l0)"
      proof
        assume "hasMatch (c # l0)"
        then obtain t where t: "isToken t" and sub: "sublist t (c # l0)"
          unfolding hasMatch_iff by blast
        from sg have "\<not> sublist t l0" using t by (auto simp: spec_segmented_def hasMatch_iff)
        with sub have "prefix t (c # l0)" by (simp add: sublist_Cons_right)
        then obtain x where "c # l0 = t @ x" by (auto simp: prefix_def)
        then have "s = t @ x @ concat (map (\<lambda>(t, l). t @ l) tls)"
          using Cons cs by (simp add: spec_source_def)
        then have "matchPrefix s = Some (t, x @ concat (map (\<lambda>(t, l). t @ l) tls))"
          using t by (simp add: matchPrefix_Some_iff)
        with None show False by simp
      qed
      then have "spec_segmented (c # l0) tls" using sg by (simp add: spec_segmented_def)
      moreover have "s = spec_source (c # l0) tls" using Cons cs by (simp add: spec_source_def)
      ultimately show ?thesis by blast
    next
      case (Some a)
      obtain m rest where a: "a = (m, rest)" by (cases a)
      from Some a have m: "isToken m" and s: "s = m @ rest" by (auto dest: matchPrefix_SomeD)
      from Some a have "length rest < length s" by (auto dest: matchPrefix_shorter)
      with "1.IH" obtain l0 tls where r: "rest = spec_source l0 tls" and sg: "spec_segmented l0 tls"
        by blast
      have "s = spec_source [] ((m, l0) # tls)"
        using s r by (simp add: spec_source_def)
      moreover have "spec_segmented [] ((m, l0) # tls)"
        using sg m by (simp add: spec_segmented_def hasMatch_iff isToken_def)
      ultimately show ?thesis by blast
    qed
  qed
qed

section \<open>The separator collapse\<close>

lemma occurrences_example_join:
  "spec_occurrences ''//'' ''http://h.tld//res/{id}'' 0 = [5, 12]"
  by (simp add: spec_occurrences.simps)

lemma occurrences_example_slash: "spec_occurrences ''/'' ''a/b'' 0 = [1]"
  by (simp add: spec_occurrences.simps)

text \<open>
  C8. \<open>replaceNth\<close> returns a string for every haystack, needle, replacement and
  occurrence index: no slice of it is ever out of range. The string returned is either
  the haystack itself or the haystack with one real occurrence of the needle replaced.
  It is the haystack itself when \<open>n\<close> is zero or negative, when the haystack is empty
  (and the needle is not), and when the needle occurs fewer than \<open>n\<close> times.
\<close>

theorem replaceNth_total:
  "(\<exists>r. replaceNth s old new n = Inr r \<and>
      (r = s \<or>
       (\<exists>p. 1 \<le> n \<and> p + length old \<le> length s \<and> take (length old) (drop p s) = old \<and>
            r = take p s @ new @ drop (p + length old) s))) \<and>
   (n \<le> 0 \<longrightarrow> replaceNth s old new n = Inr s) \<and>
   (s = [] \<and> old \<noteq> [] \<longrightarrow> replaceNth s old new n = Inr s) \<and>
   (old \<noteq> [] \<and> int (length (spec_occurrences old s 0)) < n \<longrightarrow>
      replaceNth s old new n = Inr s)"
proof -
  have a: "\<exists>r. replaceNth s old new n = Inr r \<and>
      (r = s \<or>
       (\<exists>p. 1 \<le> n \<and> p + length old \<le> length s \<and> take (length old) (drop p s) = old \<and>
            r = take p s @ new @ drop (p + length old) s))"
    unfolding replaceNth_def using loop_total [of 0 s old new n 1] by simp
  have b: "n \<le> 0 \<longrightarrow> replaceNth s old new n = Inr s"
    by (simp add: replaceNth_nonpositive)
  have d: "old \<noteq> [] \<and> int (length (spec_occurrences old s 0)) < n \<longrightarrow>
      replaceNth s old new n = Inr s"
    by (simp add: replaceNth_few)
  have c: "s = [] \<and> old \<noteq> [] \<longrightarrow> replaceNth s old new n = Inr s"
  proof (cases "n \<le> 0")
    case True
    then show ?thesis by (simp add: replaceNth_nonpositive)
  next
    case False
    have "spec_occurrences old [] 0 = []" by (simp add: spec_occurrences.simps)
    then show ?thesis using False replaceNth_few [of old "[]" n new] by auto
  qed
  from a b c d show ?thesis by blast
qed

theorem replaceNth_total_witness:
  "(- 1 :: int) \<le> 0 \<and> replaceNth ''a/b'' ''/'' ''-'' (- 1) = Inr ''a/b'' \<and>
   replaceNth [] ''/'' ''-'' 1 = Inr [] \<and>
   int (length (spec_occurrences ''/'' ''a/b'' 0)) < 2 \<and>
   replaceNth ''a/b'' ''/'' ''-'' 2 = Inr ''a/b''"
  using replaceNth_total [of "''a/b''" "''/''" "''-''" "- 1"]
    replaceNth_total [of "[]" "''/''" "''-''" 1]
    replaceNth_total [of "''a/b''" "''/''" "''-''" 2]
  by (simp add: occurrences_example_slash)

section \<open>The placeholder replacement\<close>

lemma segmented_example:
  "spec_segmented ''/u/{}'' [(''{id}'', ''/o/{{''), (''{oid}'', ''}/''), (''{e}'', [])]"
  by (simp add: spec_segmented_def hasMatch_def isToken_def)

lemma no_match_example: "\<not> hasMatch ''/a//{}/{{''"
  by (simp add: hasMatch_def isToken_def)

text \<open>
  C3. A token \<open>{name}\<close> anywhere in a path (the name non-empty and free of braces) is
  replaced, whatever stands before and behind it, by the value mapped to the name in
  \<open>placeholders\<close> when the name is a key (the empty value included, and whatever the
  default replacement is); otherwise by the default replacement when that is not
  empty; otherwise by the token itself, braces included. The text before and the text
  behind the token are rendered on their own.
\<close>

theorem placeholder_precedence:
  assumes "name \<noteq> []" "\<forall>c\<in>set name. c \<noteq> CHR ''{'' \<and> c \<noteq> CHR ''}''"
  shows "\<exists>a b. replacePlaceholders opt pre = Inr a \<and> replacePlaceholders opt post = Inr b \<and>
     replacePlaceholders opt (pre @ ''{'' @ name @ ''}'' @ post) =
       Inr (a @
            (case placeholders opt name of
               Some value \<Rightarrow> value
             | None \<Rightarrow> if replace opt \<noteq> [] then replace opt else ''{'' @ name @ ''}'') @
            b)"
proof -
  obtain a where a: "replacePlaceholders opt pre = Inr a"
    using replacePlaceholders_total by blast
  obtain b where b: "replacePlaceholders opt post = Inr b"
    using replacePlaceholders_total by blast
  have tok: "isToken (CHR ''{'' # name @ [CHR ''}''])"
    unfolding isToken_iff using assms by (auto simp: list_all_iff nameChar_def)
  have "replacePlaceholders opt (pre @ (CHR ''{'' # name @ [CHR ''}'']) @ post) =
       Inr (a @
            (case placeholders opt name of
               Some value \<Rightarrow> value
             | None \<Rightarrow>
                 if replace opt \<noteq> [] then replace opt else CHR ''{'' # name @ [CHR ''}'']) @
            b)"
    using a b unfolding replacePlaceholders_def RASF_token [OF tok] resolve_token by simp
  with a b show ?thesis by (simp split: option.splits)
qed

theorem placeholder_precedence_witness:
  "''id'' \<noteq> [] \<and> list_all (\<lambda>c. c \<noteq> CHR ''{'' \<and> c \<noteq> CHR ''}'') ''id'' \<and>
   replacePlaceholders example_values ''/u/{id}/o/{oid}'' = Inr ''/u/{oid}/o/XXX'' \<and>
   replacePlaceholders example_values ''/u/{e}/o'' = Inr ''/u//o'' \<and>
   replacePlaceholders (example_values\<lparr>replace := []\<rparr>) ''/u/{oid}/'' = Inr ''/u/{oid}/''"
  using placeholder_precedence [of "''id''" example_values "''/u/''" "''/o/{oid}''"]
    placeholder_precedence [of "''e''" example_values "''/u/''" "''/o''"]
    placeholder_precedence [of "''oid''" "example_values\<lparr>replace := []\<rparr>" "''/u/''" "''/''"]
  by (simp add: example_values_def replacePlaceholders_def matchPrefix_def resolve_def
      slice_def nameChar_def)

text \<open>
  C4. \<open>replacePlaceholders\<close> replaces exactly the matches of the token pattern: on a
  string cut at its matches, every match is replaced by the value of its name and the
  text between the matches is kept as it is, so a value is never scanned again. A string
  without a match comes back unchanged. Every string has such a cut.
\<close>

theorem replaces_exactly_the_matches:
  "(spec_segmented l0 tls \<longrightarrow>
      replacePlaceholders opt (spec_source l0 tls) = Inr (spec_rendered opt l0 tls)) \<and>
   (\<not> hasMatch s \<longrightarrow> replacePlaceholders opt s = Inr s) \<and>
   (\<exists>l tl. s = spec_source l tl \<and> spec_segmented l tl)"
  using render_segmented [of l0 tls opt] segmentation_exists [of s]
  by (simp add: replacePlaceholders_def RASF_noMatch)

theorem replaces_exactly_the_matches_witness:
  "spec_segmented ''/u/{}'' [(''{id}'', ''/o/{{''), (''{oid}'', ''}/''), (''{e}'', [])] \<and>
   replacePlaceholders example_values ''/u/{}{id}/o/{{{oid}}/{e}'' =
     Inr ''/u/{}{oid}/o/{{XXX}/'' \<and>
   \<not> hasMatch ''/a//{}/{{'' \<and>
   replacePlaceholders example_values ''/a//{}/{{'' = Inr ''/a//{}/{{''"
  using replaces_exactly_the_matches
    [of "''/u/{}''" "[(''{id}'', ''/o/{{''), (''{oid}'', ''}/''), (''{e}'', [])]" example_values
        "''/a//{}/{{''"]
  by (simp add: segmented_example no_match_example spec_source_def spec_rendered_def
      spec_resolver_def spec_name_def example_values_def)

section \<open>The placeholder arguments\<close>

lemma Index_char:
  "Index s [c] = (if c \<in> set s then int (length (takeWhile (\<lambda>x. x \<noteq> c) s)) else - 1)"
  by (induction s) (auto simp: Let_def)

lemma SplitN2_spec:
  "SplitN2 p ''='' = (case spec_entry p of None \<Rightarrow> [p] | Some (n, v) \<Rightarrow> [n, v])"
proof (cases "CHR ''='' \<in> set p")
  case False
  then show ?thesis by (simp add: SplitN2_def spec_entry_def Index_char)
next
  case True
  let ?P = "\<lambda>c. c \<noteq> CHR ''=''"
  let ?k = "length (takeWhile ?P p)"
  have ix: "Index p ''='' = int ?k" using True by (simp add: Index_char)
  have t: "take ?k p = takeWhile ?P p" by (rule takeWhile_eq_take [symmetric])
  have "drop ?k p = dropWhile ?P p" by (rule dropWhile_eq_drop [symmetric])
  then have d: "drop (?k + 1) p = tl (dropWhile ?P p)"
    by (metis Suc_eq_plus1 drop_Suc tl_drop)
  have "SplitN2 p ''='' = [take ?k p, drop (?k + 1) p]"
    unfolding SplitN2_def ix by (simp add: Let_def)
  then show ?thesis using True by (simp only: t d spec_entry_def) simp
qed

lemma parsePlaceholder_spec:
  "parsePlaceholder p opt =
     (case spec_entry p of
        None \<Rightarrow> opt
      | Some (n, v) \<Rightarrow> opt\<lparr>placeholders := (placeholders opt)(n \<mapsto> v)\<rparr>)"
  by (simp add: parsePlaceholder_def SplitN2_spec Let_def split: option.splits)

lemma parsePlaceholder_fields:
  "baseURL (parsePlaceholder a opt) = baseURL opt \<and>
   input (parsePlaceholder a opt) = input opt \<and>
   replace (parsePlaceholder a opt) = replace opt \<and>
   showBase (parsePlaceholder a opt) = showBase opt \<and>
   placeholderArgs (parsePlaceholder a opt) = placeholderArgs opt"
  unfolding parsePlaceholder_spec by (simp split: option.splits)

lemma fold_parsePlaceholder_fields:
  "baseURL (fold parsePlaceholder args opt) = baseURL opt \<and>
   input (fold parsePlaceholder args opt) = input opt \<and>
   replace (fold parsePlaceholder args opt) = replace opt \<and>
   showBase (fold parsePlaceholder args opt) = showBase opt \<and>
   placeholderArgs (fold parsePlaceholder args opt) = placeholderArgs opt"
  by (induction args arbitrary: opt) (simp_all add: parsePlaceholder_fields)

lemma parsePlaceholders_fields [simp]:
  "baseURL (parsePlaceholders opt) = baseURL opt"
  "input (parsePlaceholders opt) = input opt"
  "replace (parsePlaceholders opt) = replace opt"
  "showBase (parsePlaceholders opt) = showBase opt"
  "placeholderArgs (parsePlaceholders opt) = placeholderArgs opt"
  by (simp_all add: parsePlaceholders_def fold_parsePlaceholder_fields)

lemma spec_placeholders_snoc:
  "spec_placeholders (args @ [a]) name =
     (case spec_entry a of
        None \<Rightarrow> spec_placeholders args name
      | Some (n, v) \<Rightarrow> if n = name then Some v else spec_placeholders args name)"
  by (simp add: spec_placeholders_def List.map_filter_def Let_def split: option.splits)

lemma fold_parsePlaceholder_spec:
  "placeholders (fold parsePlaceholder args opt) name =
     (case spec_placeholders args name of None \<Rightarrow> placeholders opt name | Some v \<Rightarrow> Some v)"
proof (induction args rule: rev_induct)
  case Nil
  then show ?case by (simp add: spec_placeholders_def List.map_filter_def)
next
  case (snoc a args)
  have step: "fold parsePlaceholder (args @ [a]) opt =
      parsePlaceholder a (fold parsePlaceholder args opt)"
    by simp
  show ?case
    unfolding step parsePlaceholder_spec [of a] spec_placeholders_snoc
    using snoc.IH by (simp split: option.splits)
qed

text \<open>
  C6. The mapping that \<open>parsePlaceholders\<close> leaves in \<open>placeholders\<close> gives every name
  the value of the last argument that has this name before its first \<open>=\<close>, the value
  being the text behind that first \<open>=\<close>; an argument without \<open>=\<close> adds nothing and
  raises nothing; a name that no argument has keeps what the mapping held before (nothing,
  as \<open>init\<close> starts from the empty mapping). So \<open>id=42\<close> followed by \<open>id=43\<close> maps
  \<open>id\<close> to \<open>43\<close>.
\<close>

theorem parsePlaceholders_last_wins:
  "placeholders (parsePlaceholders opt) name =
     (case spec_placeholders (placeholderArgs opt) name of
        None \<Rightarrow> placeholders opt name
      | Some v \<Rightarrow> Some v)"
  by (simp add: parsePlaceholders_def fold_parsePlaceholder_spec)

theorem parsePlaceholders_last_wins_witness:
  "placeholders (parsePlaceholders example_args) ''id'' = Some ''43'' \<and>
   placeholders (parsePlaceholders example_args) ''novalue'' = None \<and>
   placeholders (parsePlaceholders example_args) ''a'' = Some ''b=c'' \<and>
   placeholders (parsePlaceholders example_args) [] = Some ''v''"
  using parsePlaceholders_last_wins [of example_args "''id''"]
    parsePlaceholders_last_wins [of example_args "''novalue''"]
    parsePlaceholders_last_wins [of example_args "''a''"]
    parsePlaceholders_last_wins [of example_args "[]"]
  by (simp add: example_args_def spec_placeholders_def spec_entry_def List.map_filter_def)

section \<open>Runs of main\<close>

lemma RASF_cong:
  "(\<And>t. isToken t \<Longrightarrow> f t = g t) \<Longrightarrow> ReplaceAllStringFunc s f = ReplaceAllStringFunc s g"
proof (induction s f rule: ReplaceAllStringFunc.induct)
  case (1 repl)
  then show ?case by simp
next
  case (2 c cs repl)
  show ?case
  proof (cases "matchPrefix (c # cs)")
    case None
    with "2.IH"(1) [OF None "2.prems"] show ?thesis by simp
  next
    case (Some a)
    obtain m rest where a: "a = (m, rest)" by (cases a)
    with Some have tok: "isToken m" by (auto dest: matchPrefix_SomeD)
    then have eq: "repl m = g m" by (rule "2.prems")
    show ?thesis
    proof (cases "repl m")
      case (Inl e)
      then show ?thesis using Some a eq by simp
    next
      case (Inr v)
      from "2.IH"(2) [OF Some a [symmetric] Inr "2.prems"] Some a Inr eq
      show ?thesis by simp
    qed
  qed
qed

lemma resolve_agree:
  assumes "isToken t" "replace a = replace b"
    "\<And>k. k \<noteq> [] \<Longrightarrow> placeholders a k = placeholders b k"
  shows "resolve a t = resolve b t"
proof -
  from assms(1) obtain name where n: "name \<noteq> []" and t: "t = CHR ''{'' # name @ [CHR ''}'']"
    unfolding isToken_iff by blast
  show ?thesis unfolding t resolve_token using assms(2) assms(3) [OF n]
    by (simp split: option.splits)
qed

lemma replacePlaceholders_agree:
  "replace a = replace b \<Longrightarrow> (\<And>k. k \<noteq> [] \<Longrightarrow> placeholders a k = placeholders b k) \<Longrightarrow>
   replacePlaceholders a s = replacePlaceholders b s"
  unfolding replacePlaceholders_def by (rule RASF_cong) (rule resolve_agree)

lemma renderPath_agree: "agree a b \<Longrightarrow> renderPath a p = renderPath b p"
  using replacePlaceholders_agree [of a b "baseURL b @ p"]
  by (simp add: agree_def renderPath_def compose_def collapse_def split: sum.splits)

lemma printPaths_agree: "agree a b \<Longrightarrow> printPaths a ps out = printPaths b ps out"
  by (induction ps arbitrary: out) (simp_all add: renderPath_agree split: sum.splits)

lemma setBaseURL_agree:
  "agree a b \<Longrightarrow> showBase a = showBase b \<Longrightarrow> agree (setBaseURL wadl a) (setBaseURL wadl b)"
  by (simp add: agree_def setBaseURL_def split: option.splits)

lemma load_input: "input a = input b \<Longrightarrow> load w a = load w b"
  unfolding load_def by (simp only:)

lemma main_agree:
  assumes "input a = input b" "showBase a = showBase b"
    "agree (parsePlaceholders a) (parsePlaceholders b)"
  shows "main w a = main w b"
proof -
  have l: "load w (parsePlaceholders a) = load w (parsePlaceholders b)"
    using assms(1) by (intro load_input) simp
  have p: "printPaths (setBaseURL wadl (parsePlaceholders a)) ps [] =
        printPaths (setBaseURL wadl (parsePlaceholders b)) ps []" for wadl ps
    using assms by (intro printPaths_agree setBaseURL_agree) simp_all
  have i: "input (parsePlaceholders a) = input (parsePlaceholders b)"
    using assms(1) by simp
  show ?thesis
    unfolding main_def Let_def l i p ..
qed

lemma spec_entry_empty_name: "(\<exists>v. spec_entry a = Some ([], v)) \<longleftrightarrow> prefix ''='' a"
  by (cases a) (auto simp: spec_entry_def)

lemma fold_filter_agree:
  "(\<And>k. k \<noteq> [] \<Longrightarrow> placeholders a k = placeholders b k) \<Longrightarrow> k \<noteq> [] \<Longrightarrow>
   placeholders (fold parsePlaceholder args a) k =
   placeholders (fold parsePlaceholder (filter (\<lambda>x. \<not> prefix ''='' x) args) b) k"
proof (induction args arbitrary: a b)
  case Nil
  then show ?case by simp
next
  case (Cons x args)
  show ?case
  proof (cases "prefix ''='' x")
    case True
    then obtain v where "spec_entry x = Some ([], v)"
      using spec_entry_empty_name by blast
    then have "\<And>j. j \<noteq> [] \<Longrightarrow> placeholders (parsePlaceholder x a) j = placeholders b j"
      using Cons.prems(1) by (simp add: parsePlaceholder_spec)
    from Cons.IH [OF this Cons.prems(2)] True show ?thesis by simp
  next
    case False
    have "\<And>j. j \<noteq> [] \<Longrightarrow>
        placeholders (parsePlaceholder x a) j = placeholders (parsePlaceholder x b) j"
      using Cons.prems(1) unfolding parsePlaceholder_spec by (simp split: option.splits)
    from Cons.IH [OF this Cons.prems(2)] False show ?thesis by simp
  qed
qed

lemma Index_sublist: "sublist sub s \<Longrightarrow> 0 \<le> Index s sub"
  by (induction s) (auto simp: sublist_Cons_right Let_def)

lemma Contains_sublist: "Contains s sub \<longleftrightarrow> sublist sub s"
proof
  assume "Contains s sub"
  then have "prefix sub (drop (nat (Index s sub)) s)"
    by (simp add: Contains_def Index_prefix)
  then obtain r where "drop (nat (Index s sub)) s = sub @ r" by (auto simp: prefix_def)
  then have "s = take (nat (Index s sub)) s @ sub @ r"
    by (metis append_take_drop_id)
  then show "sublist sub s" unfolding sublist_def by blast
next
  assume "sublist sub s"
  then show "Contains s sub" by (simp add: Contains_def Index_sublist)
qed

lemma renderPath_based:
  "baseURL opt \<noteq> [] \<Longrightarrow>
   \<exists>t. replacePlaceholders opt (baseURL opt @ p) = Inr t \<and>
       renderPath opt p = Inr (spec_collapse t)"
proof -
  assume b: "baseURL opt \<noteq> []"
  obtain t where t: "replacePlaceholders opt (baseURL opt @ p) = Inr t"
    using replacePlaceholders_total by blast
  have "renderPath opt p = Inr (spec_collapse t)"
    using b by (simp add: renderPath_def compose_def t collapse_def replaceNth_collapse)
  with t show ?thesis by blast
qed

lemma printPaths_based:
  assumes "baseURL opt \<noteq> []"
  shows "\<exists>ts. list_all2 (\<lambda>p t. replacePlaceholders opt (baseURL opt @ p) = Inr t) ps ts \<and>
     printPaths opt ps out =
       \<lparr>stdout = out @ map (\<lambda>t. spec_collapse t @ [CHR 0x0A]) ts, stderr = [],
        status = Exit 0\<rparr>"
proof (induction ps arbitrary: out)
  case Nil
  then show ?case by simp
next
  case (Cons p ps)
  obtain t where t: "replacePlaceholders opt (baseURL opt @ p) = Inr t"
    and r: "renderPath opt p = Inr (spec_collapse t)"
    using renderPath_based [OF assms] by blast
  from Cons [of "out @ [spec_collapse t @ [CHR 0x0A]]"] obtain ts where
    ts: "list_all2 (\<lambda>p t. replacePlaceholders opt (baseURL opt @ p) = Inr t) ps ts"
    and pp: "printPaths opt ps (out @ [spec_collapse t @ [CHR 0x0A]]) =
       \<lparr>stdout = (out @ [spec_collapse t @ [CHR 0x0A]]) @ map (\<lambda>t. spec_collapse t @ [CHR 0x0A]) ts,
        stderr = [], status = Exit 0\<rparr>"
    by blast
  have "list_all2 (\<lambda>p t. replacePlaceholders opt (baseURL opt @ p) = Inr t) (p # ps) (t # ts)"
    using t ts by simp
  moreover have "printPaths opt (p # ps) out =
       \<lparr>stdout = out @ map (\<lambda>t. spec_collapse t @ [CHR 0x0A]) (t # ts), stderr = [],
        status = Exit 0\<rparr>"
    using r pp by simp
  ultimately show ?case by blast
qed

lemma main_not_wadl:
  assumes "input opt \<noteq> []" "load w opt = Inr wadl" "spec_lacks_marker wadl"
  shows "main w opt = errorExit [] ''Not a WADL file.''"
proof -
  have l: "load w (parsePlaceholders opt) = Inr wadl"
    using assms(2) load_input [of "parsePlaceholders opt" opt w] by simp
  show ?thesis
    using assms(1,3) unfolding main_def Let_def l
    by (simp add: spec_lacks_marker_def Contains_sublist split: option.splits)
qed

lemma not_sublist_example: "\<not> sublist ''wadl.dev.java.net'' ''http://www.w3.org/1999/xhtml''"
  by (simp add: sublist_Cons_right)

lemma sublist_example: "sublist ''wadl.dev.java.net'' ''http://wadl.dev.java.net/2009/02''"
  by (simp add: sublist_Cons_right)

lemma no_match_slashes: "\<not> hasMatch ''//b//c''"
  by (simp add: hasMatch_def isToken_def)

lemma render_example_a:
  "replacePlaceholders (example_options\<lparr>showBase := False\<rparr>) ''/a'' = Inr ''/a''"
  by (simp add: replacePlaceholders_def matchPrefix_def)

lemma main_example_no_base:
  "main example_world (example_options\<lparr>showBase := False\<rparr>) =
     \<lparr>stdout = [''/a'' @ [CHR 0x0A], ''//b//c//{id}'' @ [CHR 0x0A]], stderr = [], status = Exit 0\<rparr>"
  by (simp add: main_def parsePlaceholders_def load_def HasPrefix_def example_options_def
      example_world_def example_document_def Contains_sublist sublist_example setBaseURL_def
      renderPath_def compose_def collapse_def replacePlaceholders_def matchPrefix_def
      nameChar_def resolve_def slice_def)

lemma placeholders_showBase:
  "placeholders (parsePlaceholders (opt\<lparr>showBase := b\<rparr>)) k = placeholders (parsePlaceholders opt) k"
  by (simp add: parsePlaceholders_def fold_parsePlaceholder_spec split: option.splits)

lemma main_example_empty_base:
  "main example_empty_base (example_options\<lparr>showBase := False\<rparr>) =
     \<lparr>stdout = [''/a'' @ [CHR 0x0A], ''//b//c//{id}'' @ [CHR 0x0A]], stderr = [], status = Exit 0\<rparr>"
  by (simp add: main_def parsePlaceholders_def load_def HasPrefix_def example_options_def
      example_empty_base_def example_document_def Contains_sublist sublist_example setBaseURL_def
      renderPath_def compose_def collapse_def replacePlaceholders_def matchPrefix_def
      nameChar_def resolve_def slice_def)

lemma counter_code:
  "renderPath example_empty_value ''/{id}/x'' = Inr ''http://h.tld/x''"
  by (simp add: renderPath_def compose_def example_empty_value_def replacePlaceholders_def
      matchPrefix_def nameChar_def resolve_def slice_def collapse_def replaceNth_collapse
      spec_collapse_def spec_occurrences.simps)

lemma counter_spec:
  "spec_pipeline example_empty_value ''/{id}/x'' = Inr ''http://h.tld//x''"
  by (simp add: spec_pipeline_def compose_def example_empty_value_def replacePlaceholders_def
      matchPrefix_def nameChar_def resolve_def slice_def collapse_def replaceNth_collapse
      spec_collapse_def spec_occurrences.simps)

lemma render_example_join:
  "replacePlaceholders example_options ''http://h.tld//res/{id}'' = Inr ''http://h.tld//res/{id}''"
  by (simp add: replacePlaceholders_def matchPrefix_def nameChar_def resolve_def slice_def
      example_options_def)

text \<open>
  C9. An argument \<open>=value\<close> is stored under the empty name. The empty name never
  matters: whatever \<open>placeholders\<close> holds for it, \<open>replacePlaceholders\<close> returns the
  same string, and a run prints and ends the same with all arguments of an empty name
  dropped.
\<close>

theorem empty_name_never_used:
  "placeholders (parsePlaceholders (opt\<lparr>placeholderArgs := args @ [''='' @ v]\<rparr>)) [] = Some v \<and>
   replacePlaceholders (opt\<lparr>placeholders := (placeholders opt)([] := x)\<rparr>) path =
     replacePlaceholders opt path \<and>
   main w opt =
     main w (opt\<lparr>placeholderArgs := filter (\<lambda>a. \<not> prefix ''='' a) (placeholderArgs opt)\<rparr>)"
proof -
  have e: "spec_entry (''='' @ v) = Some ([], v)" by (simp add: spec_entry_def)
  have a: "placeholders (parsePlaceholders (opt\<lparr>placeholderArgs := args @ [''='' @ v]\<rparr>)) [] = Some v"
    unfolding parsePlaceholders_def fold_parsePlaceholder_spec
    by (simp add: spec_placeholders_snoc e del: append.simps)
  have b: "replacePlaceholders (opt\<lparr>placeholders := (placeholders opt)([] := x)\<rparr>) path =
     replacePlaceholders opt path"
    by (rule replacePlaceholders_agree) simp_all
  let ?o = "opt\<lparr>placeholderArgs := filter (\<lambda>a. \<not> prefix ''='' a) (placeholderArgs opt)\<rparr>"
  have "agree (parsePlaceholders opt) (parsePlaceholders ?o)"
    unfolding agree_def
  proof (intro conjI allI impI)
    fix k :: string
    assume k: "k \<noteq> []"
    show "placeholders (parsePlaceholders opt) k = placeholders (parsePlaceholders ?o) k"
      unfolding parsePlaceholders_def
      using fold_filter_agree [of opt ?o k "placeholderArgs opt"] k by simp
  qed simp_all
  then have c: "main w opt = main w ?o" by (intro main_agree) simp_all
  from a b c show ?thesis by blast
qed

theorem empty_name_never_used_witness:
  "placeholders (parsePlaceholders (example_args\<lparr>placeholderArgs := [''id=42''] @ [''='' @ ''v'']\<rparr>)) [] =
     Some ''v'' \<and>
   replacePlaceholders (example_args\<lparr>placeholders := (placeholders example_args)([] := Some ''v'')\<rparr>)
     ''/{}/{id}'' = Inr ''/{}/{id}'' \<and>
   main example_world example_args =
     main example_world
       (example_args\<lparr>placeholderArgs := [''id=42'', ''novalue'', ''id=43'', ''a=b=c'']\<rparr>)"
  using empty_name_never_used
    [where opt = example_args and args = "[''id=42'']" and v = "''v''" and x = "Some ''v''"
       and path = "''/{}/{id}''" and w = example_world]
  by (simp add: example_args_def replacePlaceholders_def matchPrefix_def nameChar_def
      resolve_def slice_def)

text \<open>
  C5. When the document that was loaded lacks the WADL namespace marker (the \<open>xmlns\<close>
  attribute of the application element is absent, or its text does not contain
  \<open>wadl.dev.java.net\<close>), the run ends with exit status 1, has written the single line
  \<open>Error! Not a WADL file.\<close> to the error stream and nothing to standard output.
\<close>

theorem not_wadl_exits:
  assumes "input opt \<noteq> []" "load w opt = Inr wadl" "spec_lacks_marker wadl"
  shows "main w opt =
    \<lparr>stdout = [], stderr = [''Error! Not a WADL file.'' @ [CHR 0x0A]], status = Exit 1\<rparr>"
  using main_not_wadl [OF assms] by (simp add: errorExit_def)

theorem not_wadl_exits_witness:
  "main example_not_wadl (example_options\<lparr>input := ''http://h.tld/app.wadl''\<rparr>) =
     \<lparr>stdout = [], stderr = [''Error! Not a WADL file.'' @ [CHR 0x0A]], status = Exit 1\<rparr> \<and>
   main example_not_wadl example_options =
     \<lparr>stdout = [], stderr = [''Error! Not a WADL file.'' @ [CHR 0x0A]], status = Exit 1\<rparr>"
  using not_wadl_exits [of "example_options\<lparr>input := ''http://h.tld/app.wadl''\<rparr>" example_not_wadl
      "\<lparr>application_xmlns = Some ''http://www.w3.org/1999/xhtml'',
        resources_base = Some ''http://h.tld/'', resource_paths = [''/a'']\<rparr>"]
    not_wadl_exits [of example_options example_not_wadl
      "\<lparr>application_xmlns = None, resources_base = None, resource_paths = [''/a'']\<rparr>"]
  by (simp add: example_options_def example_not_wadl_def load_def HasPrefix_def
      spec_lacks_marker_def not_sublist_example)

text \<open>
  C7. When the document has no \<open>base\<close> attribute or the base URL was not asked for, the
  string that is rendered for a relative path is the relative path itself, and the
  collapse step returns every string unchanged: the line is the relative path with its
  placeholders replaced, and a path without placeholders is printed as it is, its
  \<open>//\<close> included. With base \<open>http://h.tld\<close>, path \<open>/a\<close> and no \<open>-b\<close> the line is \<open>/a\<close>.
\<close>

theorem empty_base_no_collapse:
  assumes "resources_base wadl = None \<or> \<not> showBase opt"
  shows "compose (setBaseURL wadl opt) p = p \<and>
    collapse (setBaseURL wadl opt) s = Inr s \<and>
    renderPath (setBaseURL wadl opt) p = replacePlaceholders opt p \<and>
    (\<not> hasMatch p \<longrightarrow> renderPath (setBaseURL wadl opt) p = Inr p)"
proof -
  have b: "baseURL (setBaseURL wadl opt) = []"
    using assms by (auto simp: setBaseURL_def split: option.splits)
  have r: "replacePlaceholders (setBaseURL wadl opt) p = replacePlaceholders opt p"
    by (rule replacePlaceholders_agree) (simp_all add: setBaseURL_def split: option.splits)
  obtain t where t: "replacePlaceholders opt p = Inr t"
    using replacePlaceholders_total by blast
  have rp: "renderPath (setBaseURL wadl opt) p = replacePlaceholders opt p"
    by (simp add: renderPath_def compose_def collapse_def b r t)
  have "\<not> hasMatch p \<longrightarrow> replacePlaceholders opt p = Inr p"
    by (simp add: replacePlaceholders_def RASF_noMatch)
  with rp show ?thesis by (simp add: compose_def collapse_def b)
qed

theorem empty_base_no_collapse_witness:
  "\<not> showBase (example_options\<lparr>showBase := False\<rparr>) \<and>
   renderPath (setBaseURL example_document (example_options\<lparr>showBase := False\<rparr>)) ''/a'' = Inr ''/a'' \<and>
   \<not> hasMatch ''//b//c'' \<and>
   renderPath (setBaseURL example_document (example_options\<lparr>showBase := False\<rparr>)) ''//b//c'' =
     Inr ''//b//c'' \<and>
   main example_world (example_options\<lparr>showBase := False\<rparr>) =
     \<lparr>stdout = [''/a'' @ [CHR 0x0A], ''//b//c//{id}'' @ [CHR 0x0A]], stderr = [], status = Exit 0\<rparr>"
  using empty_base_no_collapse [of example_document "example_options\<lparr>showBase := False\<rparr>" "''/a''"]
    empty_base_no_collapse [of example_document "example_options\<lparr>showBase := False\<rparr>" "''//b//c''"]
  by (simp add: no_match_slashes render_example_a main_example_no_base
      replacePlaceholders_def matchPrefix_def)

text \<open>
  C10. When the \<open>base\<close> attribute of the document is present with the empty text, a run
  with \<open>-b\<close> prints and ends exactly as the run without it: the effective base URL is
  empty, nothing is put before the path, and the collapse step returns every string
  unchanged.
\<close>

theorem empty_base_text_same_output:
  assumes "load w opt = Inr wadl" "resources_base wadl = Some []"
  shows "main w (opt\<lparr>showBase := True\<rparr>) = main w (opt\<lparr>showBase := False\<rparr>) \<and>
    compose (setBaseURL wadl (opt\<lparr>showBase := True\<rparr>)) p = p \<and>
    collapse (setBaseURL wadl (opt\<lparr>showBase := True\<rparr>)) s = Inr s \<and>
    renderPath (setBaseURL wadl (opt\<lparr>showBase := True\<rparr>)) p =
      renderPath (setBaseURL wadl (opt\<lparr>showBase := False\<rparr>)) p"
proof -
  let ?T = "parsePlaceholders (opt\<lparr>showBase := True\<rparr>)"
  let ?F = "parsePlaceholders (opt\<lparr>showBase := False\<rparr>)"
  have lT: "load w ?T = Inr wadl"
    using assms(1) load_input [of ?T opt w] by simp
  have lF: "load w ?F = Inr wadl"
    using assms(1) load_input [of ?F opt w] by simp
  have ag: "agree (setBaseURL wadl ?T) (setBaseURL wadl ?F)"
    using assms(2) by (simp add: agree_def setBaseURL_def placeholders_showBase)
  have m: "main w (opt\<lparr>showBase := True\<rparr>) = main w (opt\<lparr>showBase := False\<rparr>)"
    unfolding main_def Let_def lT lF
    by (simp add: printPaths_agree [OF ag] split: option.splits)
  have b: "baseURL (setBaseURL wadl (opt\<lparr>showBase := True\<rparr>)) = []"
    using assms(2) by (simp add: setBaseURL_def)
  have r: "renderPath (setBaseURL wadl (opt\<lparr>showBase := True\<rparr>)) p =
      renderPath (setBaseURL wadl (opt\<lparr>showBase := False\<rparr>)) p"
    by (rule renderPath_agree) (simp add: agree_def setBaseURL_def assms(2))
  from m b r show ?thesis by (simp add: compose_def collapse_def)
qed

theorem empty_base_text_same_output_witness:
  "load example_empty_base example_options = Inr (example_document\<lparr>resources_base := Some []\<rparr>) \<and>
   resources_base (example_document\<lparr>resources_base := Some []\<rparr>) = Some [] \<and>
   main example_empty_base (example_options\<lparr>showBase := True\<rparr>) =
     \<lparr>stdout = [''/a'' @ [CHR 0x0A], ''//b//c//{id}'' @ [CHR 0x0A]], stderr = [], status = Exit 0\<rparr>"
  using empty_base_text_same_output [of example_empty_base example_options
      "example_document\<lparr>resources_base := Some []\<rparr>" "[]" "[]"]
  by (simp add: main_example_empty_base)
     (simp add: load_def HasPrefix_def example_options_def example_empty_base_def)

text \<open>
  A run on which collapsing before the replacement and collapsing after it differ: with
  \<^verbatim>\<open>-p id=\<close> the path \<open>/{id}/x\<close> behind the base \<open>http://h.tld\<close> is printed as
  \<open>http://h.tld/x\<close>, where the order of the specification gives \<open>http://h.tld//x\<close>. And
  the string that is templated for base \<open>http://h.tld/\<close> and path \<open>/res/{id}\<close> still has
  both slashes at the join.
\<close>

theorem collapse_before_substitution_counterexample:
  "renderPath example_empty_value ''/{id}/x'' = Inr ''http://h.tld/x'' \<and>
   spec_pipeline example_empty_value ''/{id}/x'' = Inr ''http://h.tld//x'' \<and>
   renderPath example_empty_value ''/{id}/x'' \<noteq> spec_pipeline example_empty_value ''/{id}/x'' \<and>
   compose example_options ''/res/{id}'' = ''http://h.tld//res/{id}''"
  by (simp add: counter_code counter_spec compose_def example_options_def)

text \<open>
  C1, as amended. With a non-empty base URL, the loop replaces the placeholders in the
  plain concatenation of base URL and relative path first, and applies the
  second-occurrence collapse to the result of that replacement; it prints one such line
  for each path, in order, and ends with status 0. (The claim has the two steps in the
  other order; the counterexample before this theorem is a run on which the two orders
  print different lines.)
\<close>

theorem collapse_after_substitution:
  "baseURL opt \<noteq> [] \<Longrightarrow>
   (\<exists>t. replacePlaceholders opt (baseURL opt @ pathText) = Inr t \<and>
        renderPath opt pathText = Inr (spec_collapse t)) \<and>
   (\<exists>ts. list_all2 (\<lambda>p t. replacePlaceholders opt (baseURL opt @ p) = Inr t) ps ts \<and>
        printPaths opt ps [] =
          \<lparr>stdout = map (\<lambda>t. spec_collapse t @ [CHR 0x0A]) ts, stderr = [], status = Exit 0\<rparr>)"
  using renderPath_based [of opt pathText] printPaths_based [of opt ps "[]"] by simp

theorem collapse_after_substitution_witness:
  "baseURL example_options \<noteq> [] \<and>
   compose example_options ''/res/{id}'' = ''http://h.tld//res/{id}'' \<and>
   replacePlaceholders example_options (compose example_options ''/res/{id}'') =
     Inr ''http://h.tld//res/{id}'' \<and>
   renderPath example_options ''/res/{id}'' = Inr ''http://h.tld/res/{id}''"
proof -
  have b: "baseURL example_options \<noteq> []" by (simp add: example_options_def)
  have c: "baseURL example_options @ ''/res/{id}'' = ''http://h.tld//res/{id}''"
    by (simp add: example_options_def)
  obtain t where
    t1: "replacePlaceholders example_options (baseURL example_options @ ''/res/{id}'') = Inr t"
    and t2: "renderPath example_options ''/res/{id}'' = Inr (spec_collapse t)"
    using collapse_after_substitution [OF b, of "''/res/{id}''" "[]"] by blast
  from t1 have t: "t = ''http://h.tld//res/{id}''"
    unfolding c render_example_join by simp
  have "spec_collapse ''http://h.tld//res/{id}'' = ''http://h.tld/res/{id}''"
    by (simp add: spec_collapse_def occurrences_example_join)
  with b c t1 t2 t show ?thesis by (simp add: compose_def)
qed

section \<open>The string that is collapsed\<close>

lemma occurrences_example_one:
  "spec_occurrences ''//'' ''http://h.tld/{id}/x'' 0 = [5]"
  by (simp add: spec_occurrences.simps)

lemma render_example_empty_value:
  "replacePlaceholders example_empty_value ''http://h.tld/{id}/x'' = Inr ''http://h.tld//x''"
  by (simp add: replacePlaceholders_def matchPrefix_def nameChar_def resolve_def slice_def
      example_empty_value_def)

lemma occurrences_example_two:
  "spec_occurrences ''//'' ''http://h.tld//x'' 0 = [5, 12]"
  by (simp add: spec_occurrences.simps)

lemma no_match_example_a: "\<not> hasMatch ''http://h.tld//a''"
  by (simp add: hasMatch_def isToken_def)

text \<open>
  A run on which the line printed is not the concatenation of base URL and relative path
  with its second \<open>//\<close> collapsed: with \<^verbatim>\<open>-p id=\<close>, base \<open>http://h.tld\<close> and path
  \<open>/{id}/x\<close> the concatenation has a single \<open>//\<close>, so the rule would leave it alone,
  yet the line printed is \<open>http://h.tld/x\<close>: the \<open>//\<close> that is collapsed is the one the
  empty value leaves behind. The line differs from the collapsed concatenation, and also
  from the collapsed concatenation with its placeholders replaced.
\<close>

theorem collapse_of_concatenation_counterexample:
  "baseURL example_empty_value \<noteq> [] \<and>
   compose example_empty_value ''/{id}/x'' = ''http://h.tld/{id}/x'' \<and>
   spec_occurrences ''//'' (compose example_empty_value ''/{id}/x'') 0 = [5] \<and>
   spec_collapse (compose example_empty_value ''/{id}/x'') = ''http://h.tld/{id}/x'' \<and>
   renderPath example_empty_value ''/{id}/x'' = Inr ''http://h.tld/x'' \<and>
   renderPath example_empty_value ''/{id}/x'' \<noteq>
     Inr (spec_collapse (compose example_empty_value ''/{id}/x'')) \<and>
   renderPath example_empty_value ''/{id}/x'' \<noteq>
     replacePlaceholders example_empty_value
       (spec_collapse (compose example_empty_value ''/{id}/x''))"
proof -
  have c: "compose example_empty_value ''/{id}/x'' = ''http://h.tld/{id}/x''"
    by (simp add: compose_def example_empty_value_def)
  have s: "spec_collapse ''http://h.tld/{id}/x'' = ''http://h.tld/{id}/x''"
    by (simp add: spec_collapse_def occurrences_example_one)
  have b: "baseURL example_empty_value \<noteq> []" by (simp add: example_empty_value_def)
  show ?thesis
    unfolding c s counter_code render_example_empty_value
    using b by (simp add: occurrences_example_one)
qed

text \<open>
  C2, as amended. With a non-empty base URL, the string printed for a relative path is
  the concatenation of base URL and relative path with its placeholders replaced, in
  which the second occurrence of \<open>//\<close> (the occurrences counted from left to right, the
  count resuming right behind each occurrence) is replaced by a single \<open>/\<close>; when the
  replaced string has fewer than two occurrences it is printed unchanged. When the
  concatenation has no placeholder token, the replaced string is the concatenation
  itself, and the string printed is the concatenation with its second \<open>//\<close> collapsed.
\<close>

theorem collapse_of_substituted_string:
  "baseURL opt \<noteq> [] \<Longrightarrow>
   \<exists>t. replacePlaceholders opt (baseURL opt @ pathText) = Inr t \<and>
       renderPath opt pathText = Inr (spec_collapse t) \<and>
       (\<forall>p1 p2 ps. spec_occurrences ''//'' t 0 = p1 # p2 # ps \<longrightarrow>
          renderPath opt pathText = Inr (take p2 t @ ''/'' @ drop (p2 + 2) t)) \<and>
       (length (spec_occurrences ''//'' t 0) < 2 \<longrightarrow> renderPath opt pathText = Inr t) \<and>
       (\<not> hasMatch (baseURL opt @ pathText) \<longrightarrow>
          t = baseURL opt @ pathText \<and>
          renderPath opt pathText = Inr (spec_collapse (baseURL opt @ pathText)))"
proof -
  assume b: "baseURL opt \<noteq> []"
  obtain t where t: "replacePlaceholders opt (baseURL opt @ pathText) = Inr t"
    and r: "renderPath opt pathText = Inr (spec_collapse t)"
    using renderPath_based [OF b] by blast
  have two: "\<forall>p1 p2 ps. spec_occurrences ''//'' t 0 = p1 # p2 # ps \<longrightarrow>
      renderPath opt pathText = Inr (take p2 t @ ''/'' @ drop (p2 + 2) t)"
    using r by (simp add: spec_collapse_def)
  have few: "length (spec_occurrences ''//'' t 0) < 2 \<longrightarrow> renderPath opt pathText = Inr t"
    using r by (auto simp: spec_collapse_def split: list.splits)
  have plain: "\<not> hasMatch (baseURL opt @ pathText) \<longrightarrow>
      t = baseURL opt @ pathText \<and>
      renderPath opt pathText = Inr (spec_collapse (baseURL opt @ pathText))"
  proof
    assume "\<not> hasMatch (baseURL opt @ pathText)"
    then have "replacePlaceholders opt (baseURL opt @ pathText) = Inr (baseURL opt @ pathText)"
      by (simp add: replacePlaceholders_def RASF_noMatch)
    with t have "t = baseURL opt @ pathText" by simp
    with r show "t = baseURL opt @ pathText \<and>
      renderPath opt pathText = Inr (spec_collapse (baseURL opt @ pathText))" by simp
  qed
  from t r two few plain show ?thesis by blast
qed

theorem collapse_of_substituted_string_witness:
  "baseURL example_empty_value \<noteq> [] \<and>
   replacePlaceholders example_empty_value (baseURL example_empty_value @ ''/{id}/x'') =
     Inr ''http://h.tld//x'' \<and>
   spec_occurrences ''//'' ''http://h.tld//x'' 0 = [5, 12] \<and>
   renderPath example_empty_value ''/{id}/x'' = Inr ''http://h.tld/x'' \<and>
   baseURL example_options \<noteq> [] \<and>
   \<not> hasMatch (baseURL example_options @ ''/a'') \<and>
   renderPath example_options ''/a'' = Inr ''http://h.tld/a''"
proof -
  have b: "baseURL example_empty_value \<noteq> []" by (simp add: example_empty_value_def)
  have c: "baseURL example_empty_value @ ''/{id}/x'' = ''http://h.tld/{id}/x''"
    by (simp add: example_empty_value_def)
  obtain t where
    t1: "replacePlaceholders example_empty_value (baseURL example_empty_value @ ''/{id}/x'') = Inr t"
    and t2: "\<forall>p1 p2 ps. spec_occurrences ''//'' t 0 = p1 # p2 # ps \<longrightarrow>
          renderPath example_empty_value ''/{id}/x'' = Inr (take p2 t @ ''/'' @ drop (p2 + 2) t)"
    using collapse_of_substituted_string [OF b, of "''/{id}/x''"] by blast
  from t1 have t: "t = ''http://h.tld//x''"
    unfolding c render_example_empty_value by simp
  have r1: "renderPath example_empty_value ''/{id}/x'' = Inr ''http://h.tld/x''"
    using t2 unfolding t occurrences_example_two by simp
  have b': "baseURL example_options \<noteq> []" by (simp add: example_options_def)
  have c': "baseURL example_options @ ''/a'' = ''http://h.tld//a''"
    by (simp add: example_options_def)
  have n: "\<not> hasMatch (baseURL example_options @ ''/a'')"
    unfolding c' by (rule no_match_example_a)
  have "spec_occurrences ''//'' ''http://h.tld//a'' 0 = [5, 12]"
    by (simp add: spec_occurrences.simps)
  then have sc: "spec_collapse ''http://h.tld//a'' = ''http://h.tld/a''"
    by (simp add: spec_collapse_def)
  have r2: "renderPath example_options ''/a'' = Inr ''http://h.tld/a''"
    using collapse_of_substituted_string [OF b', of "''/a''"] n unfolding c' sc by auto
  from b c t1 t r1 b' n r2 show ?thesis
    by (simp add: occurrences_example_two)
qed

end
